theory Spec2Isabelle
  imports Complex_Main
begin

section \<open>The rate limiter of rate\_limiter\_ip.py\<close>

text \<open>
  The module has one function, \<^verbatim>\<open>rate_limit(max_calls, period)\<close>, whose inner
  \<^verbatim>\<open>wrapper(request)\<close> keeps, per client, the list of the times of the admitted
  requests (\<^verbatim>\<open>usage: dict[str, list[float]]\<close>) and admits or rejects a request.

  \<^verbatim>\<open>max_calls\<close> and \<^verbatim>\<open>period\<close> are Python ints. The readings of \<^verbatim>\<open>time.time()\<close>
  are Python floats, that is IEEE 754 binary64 numbers: a finite one is held as the real
  number it denotes, and the two subtractions of the wrapper (\<^verbatim>\<open>now - t\<close> and
  \<^verbatim>\<open>period - (now - timestamps[0])\<close>) round their exact result to the nearest double,
  ties to even, as the hardware does.
\<close>

subsection \<open>Data\<close>

text \<open>\<^verbatim>\<open>request.client\<close> is an address (host, port) or \<^verbatim>\<open>None\<close>.\<close>

record address =
  host :: string
  port :: int

record request =
  client :: "address option"

text \<open>
  The exceptions the wrapper can leave with. The detail of the 429 response is the text
  \<^verbatim>\<open>f"Rate limit exceeded. Retry after {wait:.2f} seconds"\<close>; it is kept as the
  value of \<^verbatim>\<open>wait\<close> it is printed from, with one constructor each for the two
  infinite values (printed \<^verbatim>\<open>inf\<close> and \<^verbatim>\<open>-inf\<close>). \<open>IndexError\<close> is what
  \<^verbatim>\<open>timestamps[0]\<close> raises on an empty list, \<open>OverflowError\<close> what the conversion of
  an int too large for a float raises.
\<close>

datatype detail = Message string | RetryAfter real | RetryAfterInf | RetryAfterNegInf

datatype error = HTTPException int detail | IndexError | OverflowError

text \<open>
  What the closure of \<^verbatim>\<open>wrapper\<close> captures: the two arguments of \<^verbatim>\<open>rate_limit\<close>
  and the dictionary \<^verbatim>\<open>usage\<close> created by \<^verbatim>\<open>decorator\<close>.
\<close>

record limiter =
  max_calls :: int
  period :: int
  usage :: "string \<rightharpoonup> real list"

subsection \<open>Double precision arithmetic\<close>

text \<open>
  \<open>expo x\<close> is the binary exponent of a positive \<open>x\<close>: \<open>2 powi expo x \<le> x < 2 powi (expo x + 1)\<close>.
  It is found by halving, for \<open>x \<ge> 1\<close>, and from the inverse otherwise.
\<close>

function expo_ge :: "real \<Rightarrow> nat" where
  "expo_ge x = (if x < 2 then 0 else Suc (expo_ge (x / 2)))"
  by pat_completeness auto
termination
proof (relation "measure (\<lambda>x. nat \<lfloor>x\<rfloor>)")
  show "wf (measure (\<lambda>x::real. nat \<lfloor>x\<rfloor>))" by simp
next
  fix x :: real
  assume "\<not> x < 2"
  then have "x / 2 \<le> x - 1" by simp
  then have "\<lfloor>x / 2\<rfloor> \<le> \<lfloor>x - 1\<rfloor>" by (rule floor_mono)
  moreover have "2 \<le> \<lfloor>x\<rfloor>" using \<open>\<not> x < 2\<close> by (simp add: le_floor_iff)
  ultimately show "(x / 2, x) \<in> measure (\<lambda>x. nat \<lfloor>x\<rfloor>)" by simp
qed

declare expo_ge.simps [simp del]

definition expo :: "real \<Rightarrow> int" where
  "expo x =
     (if 1 \<le> x then int (expo_ge x)
      else (let n = expo_ge (1 / x) in if 2 ^ n = 1 / x then - int n else - int n - 1))"

text \<open>
  A double has 53 significant bits and its exponent is at least \<open>-1022\<close>: around a
  magnitude \<open>a\<close> the doubles are the multiples of \<open>quantum a\<close>. \<open>rne\<close> rounds to the
  nearest integer, ties to the even one; \<open>round_nearest\<close> is the rounding of a real to
  the nearest double when the exponent is not bounded above.
\<close>

definition rne :: "real \<Rightarrow> int" where
  "rne x =
     (let f = \<lfloor>x\<rfloor>; d = x - of_int f in
      if d < 1 / 2 then f else if 1 / 2 < d then f + 1 else if even f then f else f + 1)"

definition quantum :: "real \<Rightarrow> real" where
  "quantum a = 2 powi (max (expo a) (- 1022) - 52)"

definition round_mag :: "real \<Rightarrow> real" where
  "round_mag a = of_int (rne (a / quantum a)) * quantum a"

definition round_nearest :: "real \<Rightarrow> real" where
  "round_nearest x = sgn x * round_mag \<bar>x\<bar>"

text \<open>
  The result of a float operation: a finite double, or an infinity when the rounded
  result reaches \<open>2 ^ 1024\<close>. (No operation of the wrapper can give a NaN: its operands
  are finite, or one finite and one infinite.)
\<close>

datatype pyfloat = Finite real | PosInf | NegInf

definition round_double :: "real \<Rightarrow> pyfloat" where
  "round_double x =
     (let r = round_nearest x in
      if 2 ^ 1024 \<le> r then PosInf else if r \<le> - (2 ^ 1024) then NegInf else Finite r)"

text \<open>\<^verbatim>\<open>a - b\<close> on two finite floats.\<close>

definition float_sub :: "real \<Rightarrow> real \<Rightarrow> pyfloat" where
  "float_sub a b = round_double (a - b)"

text \<open>
  \<^verbatim>\<open>d < p\<close> for a float \<open>d\<close> and an int \<open>p\<close>: Python compares the two exactly, without
  converting the int.
\<close>

definition float_lt_int :: "pyfloat \<Rightarrow> int \<Rightarrow> bool" where
  "float_lt_int d p =
     (case d of Finite y \<Rightarrow> y < real_of_int p | PosInf \<Rightarrow> False | NegInf \<Rightarrow> True)"

text \<open>
  The conversion of an int to a float, which \<^verbatim>\<open>period - d\<close> performs on \<^verbatim>\<open>period\<close>:
  correctly rounded, and \<open>OverflowError\<close> when the rounded value is out of range.
\<close>

definition int_to_float :: "int \<Rightarrow> error + real" where
  "int_to_float n =
     (let r = round_nearest (real_of_int n) in
      if 2 ^ 1024 \<le> \<bar>r\<bar> then Inl OverflowError else Inr r)"

text \<open>\<^verbatim>\<open>pf - d\<close> for a finite float \<open>pf\<close> and the result \<open>d\<close> of an earlier operation.\<close>

definition float_rsub :: "real \<Rightarrow> pyfloat \<Rightarrow> pyfloat" where
  "float_rsub pf d =
     (case d of Finite y \<Rightarrow> round_double (pf - y) | PosInf \<Rightarrow> NegInf | NegInf \<Rightarrow> PosInf)"

definition retry_after :: "pyfloat \<Rightarrow> detail" where
  "retry_after wait =
     (case wait of Finite w \<Rightarrow> RetryAfter w | PosInf \<Rightarrow> RetryAfterInf
      | NegInf \<Rightarrow> RetryAfterNegInf)"

subsection \<open>Operations\<close>

text \<open>
  \<^verbatim>\<open>rate_limit(max_calls, period)\<close> followed by \<^verbatim>\<open>decorator(func)\<close>: nothing is
  checked, the dictionary starts empty (\<^verbatim>\<open>usage = {}\<close>).
\<close>

definition rate_limit :: "int \<Rightarrow> int \<Rightarrow> limiter" where
  "rate_limit m p = \<lparr>max_calls = m, period = p, usage = Map.empty\<rparr>"

text \<open>
  Lines 31 to 33: \<^verbatim>\<open>if unique_id not in usage: usage[unique_id] = []\<close> and
  \<^verbatim>\<open>timestamps = usage[unique_id]\<close>.
\<close>

definition window :: "limiter \<Rightarrow> string \<Rightarrow> real list" where
  "window L unique_id =
     (case usage L unique_id of None \<Rightarrow> [] | Some timestamps \<Rightarrow> timestamps)"

text \<open>
  Line 34: \<^verbatim>\<open>[t for t in timestamps if now - t < period]\<close>, a float subtraction and
  a comparison of its result with the int \<^verbatim>\<open>period\<close>.
\<close>

definition prune :: "int \<Rightarrow> real \<Rightarrow> real list \<Rightarrow> real list" where
  "prune p now timestamps = filter (\<lambda>t. float_lt_int (float_sub now t) p) timestamps"

text \<open>
  Lines 31 to 45 of \<^verbatim>\<open>wrapper\<close>, for the key \<open>unique_id\<close> and the clock reading
  \<open>now\<close>: the operation the specification calls \<open>check\<close>. \<open>Inr ()\<close> is the
  admission (the wrapper goes on to call \<^verbatim>\<open>func\<close>), \<open>Inl\<close> an exception. The list
  is changed in place (\<^verbatim>\<open>timestamps[:] = ...\<close>, \<^verbatim>\<open>timestamps.append(now)\<close>), so the
  dictionary holds the pruned list in every branch. In line 41 \<^verbatim>\<open>timestamps[0]\<close> is
  read first, then \<^verbatim>\<open>now - timestamps[0]\<close> is computed, then \<^verbatim>\<open>period\<close> is converted
  to a float and the second subtraction made.
\<close>

definition check :: "string \<Rightarrow> real \<Rightarrow> limiter \<Rightarrow> (error + unit) \<times> limiter" where
  "check unique_id now L =
     (let timestamps = prune (period L) now (window L unique_id) in
      if int (length timestamps) < max_calls L
      then (Inr (), L\<lparr>usage := (usage L)(unique_id \<mapsto> timestamps @ [now])\<rparr>)
      else (case timestamps of
              [] \<Rightarrow> (Inl IndexError, L\<lparr>usage := (usage L)(unique_id \<mapsto> timestamps)\<rparr>)
            | t0 # _ \<Rightarrow>
                (case int_to_float (period L) of
                   Inl e \<Rightarrow> (Inl e, L\<lparr>usage := (usage L)(unique_id \<mapsto> timestamps)\<rparr>)
                 | Inr pf \<Rightarrow>
                     (Inl (HTTPException 429
                             (retry_after (float_rsub pf (float_sub now t0)))),
                      L\<lparr>usage := (usage L)(unique_id \<mapsto> timestamps)\<rparr>))))"

text \<open>
  The whole \<^verbatim>\<open>wrapper\<close>. \<open>sha256_hexdigest\<close> stands for
  \<^verbatim>\<open>hashlib.sha256(s.encode()).hexdigest()\<close>, \<open>func\<close> for the decorated endpoint and
  \<open>now\<close> for the reading of \<^verbatim>\<open>time.time()\<close>.
\<close>

definition wrapper ::
  "(string \<Rightarrow> string) \<Rightarrow> (request \<Rightarrow> 'r) \<Rightarrow> real \<Rightarrow> request \<Rightarrow> limiter
     \<Rightarrow> (error + 'r) \<times> limiter" where
  "wrapper sha256_hexdigest func now request L =
     (case client request of
        None \<Rightarrow>
          (Inl (HTTPException 400 (Message ''Request has no client information'')), L)
      | Some a \<Rightarrow>
          (let ip_address = host a;
               unique_id = sha256_hexdigest ip_address
           in case check unique_id now L of
                (Inl e, L') \<Rightarrow> (Inl e, L')
              | (Inr _, L') \<Rightarrow> (Inr (func request), L')))"

text \<open>
  A sequence of calls, each a key and a clock reading, run from left to right; the
  outcomes are collected in the order of the calls.
\<close>

fun run :: "limiter \<Rightarrow> (string \<times> real) list \<Rightarrow> (error + unit) list \<times> limiter" where
  "run L [] = ([], L)"
| "run L (c # cs) =
     (let (r, L') = check (fst c) (snd c) L;
          (rs, L'') = run L' cs
      in (r # rs, L''))"

text \<open>
  Reading an outcome: an admission, a rejection (status 429), and the finite wait a
  rejection reports.
\<close>

fun is_admit :: "error + 'r \<Rightarrow> bool" where
  "is_admit (Inr _) = True"
| "is_admit (Inl _) = False"

fun is_reject :: "error + 'r \<Rightarrow> bool" where
  "is_reject (Inl (HTTPException code _)) = (code = 429)"
| "is_reject _ = False"

fun reject_wait :: "error + 'r \<Rightarrow> real option" where
  "reject_wait (Inl (HTTPException code (RetryAfter w))) = (if code = 429 then Some w else None)"
| "reject_wait _ = None"


section \<open>Properties of the arithmetic\<close>

lemma expo_ge_bracket: "1 \<le> x \<Longrightarrow> 2 ^ expo_ge x \<le> x \<and> x < 2 ^ Suc (expo_ge x)"
proof (induction x rule: expo_ge.induct)
  case (1 x)
  show ?case
  proof (cases "x < 2")
    case True
    with "1.prems" show ?thesis by (simp add: expo_ge.simps [of x])
  next
    case False
    then have "1 \<le> x / 2" by simp
    with "1.IH" False have "2 ^ expo_ge (x / 2) \<le> x / 2 \<and> x / 2 < 2 ^ Suc (expo_ge (x / 2))"
      by simp
    with False show ?thesis by (simp add: expo_ge.simps [of x])
  qed
qed

lemma powi_neg_nat: "(2::real) powi (- int n) = 1 / 2 ^ n"
  by (simp add: power_int_minus field_simps)

lemma powi_Suc: "(2::real) powi (k + 1) = 2 * 2 powi k"
  by (simp add: power_int_add)

lemma powi_less_imp_less: "(2::real) powi a < 2 powi b \<Longrightarrow> a < b"
  using power_int_increasing [of b a "2::real"] by (cases "a < b") simp_all

lemma expo_bracket:
  assumes "0 < x"
  shows "2 powi expo x \<le> x \<and> x < 2 powi (expo x + 1)"
proof (cases "1 \<le> x")
  case True
  with expo_ge_bracket [of x] show ?thesis
    by (simp add: expo_def powi_Suc)
next
  case False
  let ?n = "expo_ge (1 / x)"
  from False assms have y: "1 \<le> 1 / x" by simp
  from expo_ge_bracket [OF y] have b: "2 ^ ?n \<le> 1 / x" "1 / x < 2 ^ Suc ?n" by simp_all
  show ?thesis
  proof (cases "2 ^ ?n = 1 / x")
    case True
    then have x: "x = 1 / 2 ^ ?n" using assms by (simp add: field_simps)
    have e: "expo x = - int ?n" using False True by (simp add: expo_def)
    have "2 powi expo x = x" unfolding e powi_neg_nat using x by simp
    then show ?thesis using assms by (simp add: powi_Suc)
  next
    case neq: False
    have e: "expo x = - int (Suc ?n)" using False neq by (simp add: expo_def Let_def)
    have e1: "expo x + 1 = - int ?n" using e by simp
    from b neq have lt: "2 ^ ?n < 1 / x" by simp
    have "x < 1 / 2 ^ ?n" using lt assms by (simp add: field_simps)
    moreover have "1 / 2 ^ Suc ?n \<le> x" using b(2) assms by (simp add: field_simps)
    ultimately show ?thesis unfolding e1 unfolding e powi_neg_nat by simp
  qed
qed

lemma expo_unique:
  assumes "0 < x" and "2 powi e \<le> x" and "x < 2 powi (e + 1)"
  shows "expo x = e"
proof -
  from expo_bracket [OF assms(1)] have b: "2 powi expo x \<le> x" "x < 2 powi (expo x + 1)"
    by simp_all
  have "(2::real) powi e < 2 powi (expo x + 1)" using assms(2) b(2) by simp
  then have "e < expo x + 1" by (rule powi_less_imp_less)
  moreover have "(2::real) powi expo x < 2 powi (e + 1)" using assms(3) b(1) by simp
  then have "expo x < e + 1" by (rule powi_less_imp_less)
  ultimately show ?thesis by simp
qed

lemma expo_mono:
  assumes "0 < x" and "x \<le> y"
  shows "expo x \<le> expo y"
proof -
  from expo_bracket [OF assms(1)] have "2 powi expo x \<le> x" by simp
  moreover from expo_bracket [of y] assms have "y < 2 powi (expo y + 1)" by simp
  ultimately have "(2::real) powi expo x < 2 powi (expo y + 1)" using assms(2) by simp
  then have "expo x < expo y + 1" by (rule powi_less_imp_less)
  then show ?thesis by simp
qed

lemma rne_of_int: "rne (of_int n) = n"
  by (simp add: rne_def)

lemma rne_bounds: "\<lfloor>x\<rfloor> \<le> rne x \<and> rne x \<le> \<lfloor>x\<rfloor> + 1"
  by (simp add: rne_def Let_def)

lemma rne_mono:
  assumes "x \<le> y"
  shows "rne x \<le> rne y"
proof (cases "\<lfloor>x\<rfloor> = \<lfloor>y\<rfloor>")
  case True
  with assms show ?thesis by (auto simp: rne_def Let_def)
next
  case False
  with assms have "\<lfloor>x\<rfloor> < \<lfloor>y\<rfloor>" using floor_mono [OF assms] by simp
  with rne_bounds [of x] rne_bounds [of y] show ?thesis by simp
qed

lemma quantum_pos: "0 < quantum a"
  by (simp add: quantum_def)

lemma rne_nonneg: "0 \<le> x \<Longrightarrow> 0 \<le> rne x"
  using rne_mono [of 0 x] by (simp add: rne_def)

lemma round_mag_nonneg: "0 \<le> a \<Longrightarrow> 0 \<le> round_mag a"
  using quantum_pos [of a] by (simp add: round_mag_def rne_nonneg)

lemma round_mag_zero: "round_mag 0 = 0"
  by (simp add: round_mag_def rne_def)

lemma powi_nonneg_of_int: "0 \<le> m \<Longrightarrow> (2::real) powi m = of_int (2 ^ nat m)"
  by (simp add: power_int_def)

lemma round_mag_le_powi:
  assumes "0 < a" and "a \<le> 2 powi k" and "max (expo a) (- 1022) \<le> k"
  shows "round_mag a \<le> 2 powi k"
proof -
  let ?j = "max (expo a) (- 1022) - 52"
  have q: "quantum a = 2 powi ?j" by (simp add: quantum_def)
  have "a / quantum a \<le> 2 powi k / 2 powi ?j"
    using assms(2) by (simp add: q divide_right_mono)
  also have "\<dots> = 2 powi (k - ?j)" by (simp add: power_int_diff)
  also have "\<dots> = of_int (2 ^ nat (k - ?j))"
    using assms(3) by (intro powi_nonneg_of_int) arith
  finally have "rne (a / quantum a) \<le> rne (of_int (2 ^ nat (k - ?j)))"
    by (rule rne_mono)
  then have "rne (a / quantum a) \<le> 2 ^ nat (k - ?j)"
    by (simp only: rne_of_int)
  then have "(of_int (rne (a / quantum a))::real) \<le> of_int (2 ^ nat (k - ?j))"
    by (simp only: of_int_le_iff)
  also have "(of_int (2 ^ nat (k - ?j))::real) = 2 powi (k - ?j)"
    using assms(3) by (intro powi_nonneg_of_int [symmetric]) arith
  finally have "round_mag a \<le> 2 powi (k - ?j) * 2 powi ?j"
    unfolding round_mag_def q by (simp add: mult_right_mono)
  then show ?thesis by (simp flip: power_int_add)
qed

lemma round_mag_ge_powi:
  assumes "0 < a" and "2 powi k \<le> a" and "max (expo a) (- 1022) \<le> k + 52"
  shows "2 powi k \<le> round_mag a"
proof -
  let ?j = "max (expo a) (- 1022) - 52"
  have q: "quantum a = 2 powi ?j" by (simp add: quantum_def)
  have p: "(2::real) powi (k - ?j) = of_int (2 ^ nat (k - ?j))"
    using assms(3) by (intro powi_nonneg_of_int) arith
  have "(of_int (2 ^ nat (k - ?j))::real) = 2 powi k / 2 powi ?j"
    unfolding p [symmetric] by (simp add: power_int_diff)
  also have "\<dots> \<le> a / quantum a"
    using assms(2) by (simp add: q divide_right_mono)
  finally have "rne (of_int (2 ^ nat (k - ?j))) \<le> rne (a / quantum a)"
    by (rule rne_mono)
  then have "2 ^ nat (k - ?j) \<le> rne (a / quantum a)"
    by (simp only: rne_of_int)
  then have "(of_int (2 ^ nat (k - ?j))::real) \<le> of_int (rne (a / quantum a))"
    by (simp only: of_int_le_iff)
  then have "2 powi (k - ?j) * 2 powi ?j \<le> round_mag a"
    unfolding round_mag_def q p by (rule mult_right_mono) simp
  then show ?thesis by (simp flip: power_int_add)
qed

lemma round_mag_mono:
  assumes "0 \<le> a" and "a \<le> b"
  shows "round_mag a \<le> round_mag b"
proof (cases "a = 0")
  case True
  with assms show ?thesis by (simp add: round_mag_zero round_mag_nonneg)
next
  case False
  with assms have a: "0 < a" and b: "0 < b" by simp_all
  define ka where "ka = max (expo a) (- 1022)"
  define kb where "kb = max (expo b) (- 1022)"
  have le: "ka \<le> kb" using expo_mono [OF a assms(2)] by (simp add: ka_def kb_def)
  show ?thesis
  proof (cases "ka = kb")
    case True
    then have q: "quantum a = quantum b" by (simp add: quantum_def ka_def kb_def)
    have "a / quantum b \<le> b / quantum b"
      using assms(2) quantum_pos [of b] by (simp add: divide_right_mono)
    then have "rne (a / quantum b) \<le> rne (b / quantum b)" by (rule rne_mono)
    then show ?thesis
      unfolding round_mag_def q using quantum_pos [of b] by (simp add: mult_right_mono)
  next
    case False
    with le have lt: "ka < kb" by linarith
    have ea: "expo a \<le> ka" and m: "- 1022 \<le> ka" by (simp_all add: ka_def)
    have kb: "kb = expo b" using lt m by (simp add: kb_def max_def split: if_splits)
    from expo_bracket [OF a] have "a < 2 powi (expo a + 1)" by simp
    also have "\<dots> \<le> 2 powi kb"
      using lt ea by (intro power_int_increasing) simp_all
    finally have "a \<le> 2 powi kb" by simp
    moreover have "max (expo a) (- 1022) \<le> kb" using lt by (simp add: ka_def)
    ultimately have "round_mag a \<le> 2 powi kb"
      using a by (intro round_mag_le_powi)
    moreover have "2 powi kb \<le> b"
      using expo_bracket [OF b] kb by simp
    then have "2 powi kb \<le> round_mag b"
      using b by (intro round_mag_ge_powi) (simp_all add: kb_def [symmetric])
    ultimately show ?thesis by simp
  qed
qed

lemma round_nearest_mono:
  assumes "x \<le> y"
  shows "round_nearest x \<le> round_nearest y"
proof -
  consider "0 \<le> x" | "y \<le> 0" | "x < 0" "0 < y" by linarith
  then show ?thesis
  proof cases
    case 1
    with assms round_mag_mono [of x y] show ?thesis
      by (cases "x = 0"; cases "y = 0") (simp_all add: round_nearest_def round_mag_zero round_mag_nonneg)
  next
    case 2
    with assms round_mag_mono [of "- y" "- x"] show ?thesis
      by (cases "x = 0"; cases "y = 0") (simp_all add: round_nearest_def round_mag_zero round_mag_nonneg)
  next
    case 3
    then have "round_nearest x \<le> 0" "0 \<le> round_nearest y"
      using round_mag_nonneg [of "- x"] round_mag_nonneg [of y]
      by (simp_all add: round_nearest_def)
    then show ?thesis by simp
  qed
qed

lemma round_mag_exact:
  assumes "a / quantum a = of_int m"
  shows "round_mag a = a"
proof -
  have "a = of_int m * quantum a"
    using assms quantum_pos [of a] by (simp add: field_simps)
  then show ?thesis
    unfolding round_mag_def assms rne_of_int by simp
qed

lemma round_mag_of_nat_exact:
  assumes "n \<le> 2 ^ 53"
  shows "round_mag (of_nat n) = of_nat n"
proof (cases "n = 0")
  case True
  then show ?thesis by (simp add: round_mag_zero)
next
  case False
  let ?a = "of_nat n :: real"
  have pos: "0 < ?a" using False by simp
  from expo_bracket [OF pos] have b: "2 powi expo ?a \<le> ?a" "?a < 2 powi (expo ?a + 1)"
    by simp_all
  have "(2::real) powi 0 < 2 powi (expo ?a + 1)"
    using b(2) False by (simp add: Suc_leI order_le_less_trans)
  then have e0: "0 \<le> expo ?a" using powi_less_imp_less [of 0 "expo ?a + 1"] by simp
  have n53: "?a \<le> 2 ^ 53"
    using assms of_nat_le_iff [of n "2 ^ 53", where ?'a = real] by simp
  then have "2 powi expo ?a \<le> (2::real) ^ 53"
    using b(1) by simp
  then have "2 powi expo ?a < (2::real) powi 54" by (simp add: order_le_less_trans)
  then have e53: "expo ?a \<le> 53" using powi_less_imp_less [of "expo ?a" 54] by simp
  show ?thesis
  proof (cases "expo ?a = 53")
    case True
    with b(1) n53 have "?a = 2 ^ 53"
      by simp
    with True show ?thesis
      by (intro round_mag_exact [of _ "2 ^ 52"]) (simp add: quantum_def)
  next
    case False
    with e53 have e52: "expo ?a \<le> 52" by simp
    have q: "quantum ?a = 2 powi (expo ?a - 52)"
      using e0 by (simp add: quantum_def max_def)
    have "?a / quantum ?a = ?a * 2 powi (52 - expo ?a)"
      unfolding q by (simp add: power_int_diff field_simps)
    also have "\<dots> = of_int (int n * 2 ^ nat (52 - expo ?a))"
      using e52 by (simp add: powi_nonneg_of_int)
    finally show ?thesis by (rule round_mag_exact)
  qed
qed

lemma round_nearest_of_int_exact:
  assumes "\<bar>n\<bar> \<le> 2 ^ 53"
  shows "round_nearest (of_int n) = of_int n"
proof -
  have "nat \<bar>n\<bar> \<le> 2 ^ 53" using assms by (simp add: nat_le_iff)
  from round_mag_of_nat_exact [OF this] have "round_mag \<bar>of_int n\<bar> = \<bar>of_int n\<bar>"
    by simp
  then show ?thesis by (simp add: round_nearest_def mult_sgn_abs)
qed

lemma round_nearest_zero: "round_nearest 0 = 0"
  by (simp add: round_nearest_def)

lemma round_nearest_nonneg: "0 \<le> x \<Longrightarrow> 0 \<le> round_nearest x"
  using round_nearest_mono [of 0 x] by (simp add: round_nearest_zero)

lemma round_double_of_int:
  assumes "\<bar>n\<bar> \<le> 2 ^ 53"
  shows "round_double (of_int n) = Finite (of_int n)"
proof -
  have "\<bar>real_of_int n\<bar> \<le> 2 ^ 53"
    using assms of_int_le_iff [of "\<bar>n\<bar>" "2 ^ 53", where ?'a = real] by simp
  then have "real_of_int n < 2 ^ 1024" and "- (2 ^ 1024) < real_of_int n"
    by simp_all
  then show ?thesis
    by (simp add: round_double_def round_nearest_of_int_exact [OF assms])
qed

lemma round_double_zero: "round_double 0 = Finite 0"
  using round_double_of_int [of 0] by simp

lemma round_double_one: "round_double 1 = Finite 1"
  using round_double_of_int [of 1] by simp

lemma round_double_numeral:
  "numeral w \<le> (2::int) ^ 53 \<Longrightarrow> round_double (numeral w) = Finite (numeral w)"
  using round_double_of_int [of "numeral w"] by simp

lemma round_double_neg_numeral:
  "numeral w \<le> (2::int) ^ 53 \<Longrightarrow> round_double (- numeral w) = Finite (- numeral w)"
  using round_double_of_int [of "- numeral w"] by simp

lemma rne_eqI:
  assumes "of_int m - 1 / 2 < x" and "x < of_int m + 1 / 2"
  shows "rne x = m"
proof -
  have "\<lfloor>x\<rfloor> = m \<or> \<lfloor>x\<rfloor> = m - 1"
    using assms by linarith
  then show ?thesis
  proof
    assume f: "\<lfloor>x\<rfloor> = m"
    with assms show ?thesis by (simp add: rne_def Let_def)
  next
    assume f: "\<lfloor>x\<rfloor> = m - 1"
    with assms show ?thesis by (simp add: rne_def Let_def)
  qed
qed

lemma rne_tie: "rne (of_int f + 1 / 2) = (if even f then f else f + 1)"
proof -
  have "\<lfloor>real_of_int f + 1 / 2\<rfloor> = f" by linarith
  then show ?thesis by (simp add: rne_def Let_def)
qed

lemma round_nearest_eqI:
  assumes "0 < x" and "2 powi e \<le> x" and "x < 2 powi (e + 1)" and "- 1022 \<le> e"
    and "of_int m - 1 / 2 < x / 2 powi (e - 52)" and "x / 2 powi (e - 52) < of_int m + 1 / 2"
  shows "round_nearest x = of_int m * 2 powi (e - 52)"
proof -
  have "expo x = e" using assms(1-3) by (rule expo_unique)
  then have q: "quantum x = 2 powi (e - 52)" using assms(4) by (simp add: quantum_def)
  have "rne (x / quantum x) = m" unfolding q using assms(5,6) by (rule rne_eqI)
  then have "round_mag x = of_int m * 2 powi (e - 52)" by (simp add: round_mag_def q)
  then show ?thesis using assms(1) by (simp add: round_nearest_def)
qed


lemma int_to_float_exact:
  assumes "\<bar>n\<bar> \<le> 2 ^ 53"
  shows "int_to_float n = Inr (real_of_int n)"
proof -
  have "\<bar>real_of_int n\<bar> \<le> 2 ^ 53"
    using assms of_int_le_iff [of "\<bar>n\<bar>" "2 ^ 53", where ?'a = real] by simp
  then have "\<bar>real_of_int n\<bar> < 2 ^ 1024" by simp
  then show ?thesis
    by (simp add: int_to_float_def round_nearest_of_int_exact [OF assms])
qed

lemma int_to_float_numeral:
  "numeral w \<le> (2::int) ^ 53 \<Longrightarrow> int_to_float (numeral w) = Inr (numeral w)"
  using int_to_float_exact [of "numeral w"] by simp

lemma int_to_float_zero: "int_to_float 0 = Inr 0"
  using int_to_float_exact [of 0] by simp

lemma int_to_float_one: "int_to_float 1 = Inr 1"
  using int_to_float_exact [of 1] by simp

lemmas float_eval =
  float_sub_def float_rsub_def float_lt_int_def retry_after_def
  round_double_zero round_double_one round_double_numeral round_double_neg_numeral
  int_to_float_zero int_to_float_one int_to_float_numeral

lemma float_sub_self: "float_sub now now = Finite 0"
  by (simp add: float_sub_def round_double_zero)

lemma float_lt_int_round:
  "float_lt_int (round_double x) p \<longleftrightarrow>
     round_nearest x < 2 ^ 1024 \<and>
     (round_nearest x \<le> - (2 ^ 1024) \<or> round_nearest x < real_of_int p)"
  by (auto simp: float_lt_int_def round_double_def Let_def)


lemma young_finite:
  assumes "t \<le> now" and "float_lt_int (float_sub now t) p"
  shows "\<exists>d. float_sub now t = Finite d \<and> 0 \<le> d \<and> d < real_of_int p \<and>
           d = round_mag (now - t)"
proof -
  have nn: "0 \<le> round_nearest (now - t)"
    using assms(1) by (intro round_nearest_nonneg) simp
  have "round_nearest (now - t) = round_mag (now - t)"
    using assms(1) by (cases "now = t") (simp_all add: round_nearest_def round_mag_zero)
  with nn assms(2) show ?thesis
    unfolding float_sub_def float_lt_int_round by (simp add: round_double_def)
qed

lemma powi_split: "(2::real) powi j = 2 powi (j + c) * 2 powi (- c)"
  by (simp flip: power_int_add)

lemma round_mag_multiple: "\<exists>m. round_mag a = real_of_int m * 2 powi (- 1074)"
proof -
  let ?j = "max (expo a) (- 1022) - 52"
  have "0 \<le> ?j + 1074" by simp
  then have i: "(2::real) powi (?j + 1074) = of_int (2 ^ nat (?j + 1074))"
    by (rule powi_nonneg_of_int)
  have "quantum a = 2 powi (?j + 1074) * 2 powi (- 1074)"
    unfolding quantum_def by (rule powi_split)
  then have "round_mag a =
      real_of_int (rne (a / quantum a) * 2 ^ nat (?j + 1074)) * 2 powi (- 1074)"
    unfolding round_mag_def i by (simp only: of_int_mult mult.assoc)
  then show ?thesis by blast
qed

lemma quantum_le:
  assumes "2 powi (- 1074) \<le> a"
  shows "quantum a \<le> a"
proof -
  have pos: "0 < a" using assms by (rule less_le_trans [rotated]) simp
  show ?thesis
  proof (cases "- 1022 \<le> expo a")
    case True
    then have "quantum a = 2 powi (expo a - 52)" by (simp add: quantum_def max_def)
    also have "\<dots> \<le> 2 powi expo a" by (intro power_int_increasing) simp_all
    also have "\<dots> \<le> a" using expo_bracket [OF pos] by simp
    finally show ?thesis .
  next
    case False
    then have "quantum a = 2 powi (- 1074)" by (simp add: quantum_def max_def)
    with assms show ?thesis by simp
  qed
qed

lemma round_mag_pos:
  assumes "2 powi (- 1074) \<le> a"
  shows "0 < round_mag a"
proof -
  have "1 \<le> a / quantum a"
    using quantum_le [OF assms] quantum_pos [of a] by simp
  then have "rne (real_of_int 1) \<le> rne (a / quantum a)"
    by (intro rne_mono) simp
  then have "1 \<le> rne (a / quantum a)" by (simp only: rne_of_int)
  then have "0 < real_of_int (rne (a / quantum a))" by simp
  then show ?thesis using quantum_pos [of a] by (simp add: round_mag_def)
qed

lemma int_multiple: "\<exists>n. real_of_int p = real_of_int n * 2 powi (- 1074)"
proof -
  have "(2::real) powi 1074 = of_int (2 ^ nat 1074)"
    by (rule powi_nonneg_of_int) simp
  moreover have "(1::real) = 2 powi (0 + 1074) * 2 powi (- 1074)"
    using powi_split [of 0 1074] by (simp only: power_int_0_right)
  ultimately have "real_of_int p = real_of_int (p * 2 ^ nat 1074) * 2 powi (- 1074)"
    by (simp only: of_int_mult mult.assoc add_0 mult_1_right flip: )
  then show ?thesis by blast
qed

lemma wait_bounds:
  assumes "\<bar>p\<bar> \<le> 2 ^ 53" and "t \<le> now" and "float_lt_int (float_sub now t) p"
  shows "\<exists>w. float_rsub (real_of_int p) (float_sub now t) = Finite w \<and>
           0 < w \<and> w \<le> real_of_int p"
proof -
  from young_finite [OF assms(2,3)] obtain d
    where d: "float_sub now t = Finite d" "0 \<le> d" "d < real_of_int p"
      "d = round_mag (now - t)"
    by blast
  let ?x = "real_of_int p - d"
  define c :: real where "c = 2 powi (- 1074)"
  have c: "0 < c" unfolding c_def by (rule zero_less_power_int) simp
  have x: "0 < ?x" "?x \<le> real_of_int p" using d(2,3) by simp_all
  from round_mag_multiple [of "now - t"] d(4) obtain m
    where m: "d = real_of_int m * c" unfolding c_def by blast
  from int_multiple [of p] obtain n where p: "real_of_int p = real_of_int n * c"
    unfolding c_def by blast
  have xz: "?x = real_of_int (n - m) * c"
    unfolding p m by (simp only: of_int_diff left_diff_distrib)
  with x(1) c have "0 < real_of_int (n - m)"
    by (simp add: zero_less_mult_iff)
  then have "1 \<le> n - m" by simp
  then have "1 \<le> real_of_int (n - m)" by (simp only: of_int_1_le_iff)
  then have "c \<le> real_of_int (n - m) * c" using c by simp
  then have small: "2 powi (- 1074) \<le> ?x" unfolding xz c_def .
  have "round_nearest ?x = round_mag ?x" using x(1) by (simp add: round_nearest_def)
  with round_mag_pos [OF small] have lo: "0 < round_nearest ?x" by simp
  have "round_nearest ?x \<le> round_nearest (real_of_int p)"
    using x(2) by (rule round_nearest_mono)
  then have hi: "round_nearest ?x \<le> real_of_int p"
    by (simp add: round_nearest_of_int_exact [OF assms(1)])
  have "\<bar>real_of_int p\<bar> \<le> 2 ^ 53"
    using assms(1) of_int_le_iff [of "\<bar>p\<bar>" "2 ^ 53", where ?'a = real] by simp
  then have "real_of_int p < 2 ^ 1024" by simp
  with lo hi show ?thesis
    by (simp add: d(1) float_rsub_def round_double_def)
qed





lemma round_nearest_tie_up: "round_nearest (2 ^ 53 + 3) = 2 ^ 53 + 4"
proof -
  let ?x = "2 ^ 53 + 3 :: real"
  have e: "expo ?x = 53" by (rule expo_unique) simp_all
  have q: "quantum ?x = 2" using e by (simp add: quantum_def)
  have "?x / 2 = real_of_int (2 ^ 52 + 1) + 1 / 2" by simp
  then have "rne (?x / quantum ?x) = 2 ^ 52 + 2"
    unfolding q by (simp only: rne_tie) simp
  then have "round_mag ?x = 2 ^ 53 + 4" using q by (simp add: round_mag_def)
  then show ?thesis by (simp add: round_nearest_def)
qed

lemma round_nearest_tie_down: "round_nearest (2 ^ 53 + 1) = 2 ^ 53"
proof -
  let ?x = "2 ^ 53 + 1 :: real"
  have e: "expo ?x = 53" by (rule expo_unique) simp_all
  have q: "quantum ?x = 2" using e by (simp add: quantum_def)
  have "?x / 2 = real_of_int (2 ^ 52) + 1 / 2" by simp
  then have "rne (?x / quantum ?x) = 2 ^ 52"
    unfolding q by (simp only: rne_tie) simp
  then have "round_mag ?x = 2 ^ 53" using q by (simp add: round_mag_def)
  then show ?thesis by (simp add: round_nearest_def)
qed

lemma round_nearest_even: "round_nearest (2 ^ 53 + 4) = 2 ^ 53 + 4"
proof -
  have "round_nearest (2 ^ 53 + 4) = of_int (2 ^ 52 + 2) * 2 powi (53 - 52)"
    by (rule round_nearest_eqI) simp_all
  then show ?thesis by simp
qed

lemma int_to_float_tie_up: "int_to_float (2 ^ 53 + 3) = Inr (2 ^ 53 + 4)"
  using round_nearest_tie_up by (simp add: int_to_float_def)

lemma int_to_float_tie_down: "int_to_float (2 ^ 53 + 1) = Inr (2 ^ 53)"
  using round_nearest_tie_down by (simp add: int_to_float_def)

lemma round_double_even: "round_double (2 ^ 53 + 4) = Finite (2 ^ 53 + 4)"
  using round_nearest_even by (simp add: round_double_def)

lemmas check_eval = check_def prune_def window_def rate_limit_def Let_def float_eval

section \<open>Properties of one call\<close>

lemma check_config:
  "max_calls (snd (check k now L)) = max_calls L \<and> period (snd (check k now L)) = period L"
  by (simp add: check_def Let_def split: list.split sum.split)

lemma check_window_same_key:
  "window (snd (check k now L)) k =
     (if is_admit (fst (check k now L)) then prune (period L) now (window L k) @ [now]
      else prune (period L) now (window L k))"
  by (simp add: check_def window_def Let_def split: list.split sum.split)

lemma check_usage_other_key:
  "k' \<noteq> k \<Longrightarrow> usage (snd (check k now L)) k' = usage L k'"
  by (simp add: check_def Let_def split: list.split sum.split)

lemma check_admit_iff:
  "is_admit (fst (check k now L)) \<longleftrightarrow>
     int (length (prune (period L) now (window L k))) < max_calls L"
  by (simp add: check_def Let_def split: list.split sum.split)

lemma prune_idem: "prune p now (prune p now ts) = prune p now ts"
  by (simp add: prune_def)

section \<open>Sequences of calls\<close>

lemma run_Cons:
  "run L (c # cs) =
     (fst (check (fst c) (snd c) L) # fst (run (snd (check (fst c) (snd c) L)) cs),
      snd (run (snd (check (fst c) (snd c) L)) cs))"
  by (simp add: Let_def case_prod_beta)

lemma run_fst_length: "length (fst (run L cs)) = length cs"
  by (induction cs arbitrary: L) (simp_all add: run_Cons del: run.simps(2))

lemma run_append:
  "run L (cs @ ds) =
     (fst (run L cs) @ fst (run (snd (run L cs)) ds), snd (run (snd (run L cs)) ds))"
  by (induction cs arbitrary: L) (simp_all add: run_Cons del: run.simps(2))

lemma run_snoc:
  "run L (cs @ [c]) =
     (fst (run L cs) @ [fst (check (fst c) (snd c) (snd (run L cs)))],
      snd (check (fst c) (snd c) (snd (run L cs))))"
  by (simp add: run_append run_Cons del: run.simps(2))

lemma run_config:
  "max_calls (snd (run L cs)) = max_calls L \<and> period (snd (run L cs)) = period L"
  by (induction cs arbitrary: L) (simp_all add: run_Cons check_config del: run.simps(2))


lemma run_nth:
  "j < length cs \<Longrightarrow>
     fst (run L cs) ! j = fst (check (fst (cs ! j)) (snd (cs ! j)) (snd (run L (take j cs))))"
proof (induction cs arbitrary: L j)
  case Nil
  then show ?case by simp
next
  case (Cons c cs)
  then show ?case by (cases j) (simp_all add: run_Cons del: run.simps(2))
qed



lemma window_other_key: "k' \<noteq> k \<Longrightarrow> window (snd (check k now L)) k' = window L k'"
  by (simp add: window_def check_usage_other_key)


lemma prune_append: "prune p x (ts @ us) = prune p x ts @ prune p x us"
  by (simp add: prune_def)

lemma window_fresh: "window (rate_limit N P) k = []"
  by (simp add: window_def rate_limit_def)


lemma int_to_float_Inl: "int_to_float n = Inl e \<Longrightarrow> e = OverflowError"
  by (simp add: int_to_float_def Let_def split: if_splits)


lemma check_reject_state:
  assumes "is_reject (fst (check k now L))"
  shows "\<exists>t0 ts pf. prune (period L) now (window L k) = t0 # ts \<and>
           int_to_float (period L) = Inr pf \<and>
           fst (check k now L) =
             Inl (HTTPException 429 (retry_after (float_rsub pf (float_sub now t0)))) \<and>
           snd (check k now L) = L\<lparr>usage := (usage L)(k \<mapsto> t0 # ts)\<rparr>"
  using assms
  by (auto simp: check_def Let_def split: list.splits sum.splits if_splits dest: int_to_float_Inl)

text \<open>
  On a limiter with \<open>max_calls \<ge> 1\<close> and a period that converts to a float, a call
  either is admitted or is rejected with status 429: a window that fails
  \<open>len(timestamps) < max_calls\<close> is not empty.
\<close>

lemma check_positive_decides:
  assumes "0 < max_calls L" and "int_to_float (period L) = Inr pf"
  shows "fst (check k now L) = Inr () \<or> is_reject (fst (check k now L))"
  using assms by (auto simp: check_def Let_def split: list.splits)

lemma check_fst_pruned_cong:
  assumes "max_calls L' = max_calls L" and "period L' = period L"
    and "prune (period L) now (window L' k) = prune (period L) now (window L k)"
  shows "fst (check k now L') = fst (check k now L)"
  using assms by (simp add: check_def Let_def split: list.split sum.split)

lemma check_window_subset:
  "set (window (snd (check k now L)) k') \<subseteq> insert now (set (window L k'))"
proof (cases "k' = k")
  case True
  then show ?thesis by (auto simp: check_window_same_key prune_def)
next
  case False
  then show ?thesis by (simp add: window_other_key subset_insertI)
qed

lemma run_window_subset:
  "set (window (snd (run (rate_limit N P) cs)) k) \<subseteq> snd ` set cs"
proof (induction cs rule: rev_induct)
  case Nil
  then show ?case by (simp add: window_fresh)
next
  case (snoc c cs)
  then show ?case
    using check_window_subset [of "fst c" "snd c" "snd (run (rate_limit N P) cs)" k]
    by (auto simp: run_snoc)
qed

lemma prune_length_le: "length (prune p now ts) \<le> length ts"
  by (simp add: prune_def)

lemma check_window_length:
  assumes "0 \<le> max_calls L" and "int (length (window L k')) \<le> max_calls L"
  shows "int (length (window (snd (check k now L)) k')) \<le> max_calls L"
proof (cases "k' = k")
  case True
  have "length (prune (period L) now (window L k)) \<le> length (window L k)"
    by (rule prune_length_le)
  with assms True show ?thesis
    by (auto simp: check_window_same_key check_admit_iff)
next
  case False
  with assms show ?thesis by (simp add: window_other_key)
qed

lemma run_window_length:
  assumes "0 \<le> N"
  shows "int (length (window (snd (run (rate_limit N P) cs)) k)) \<le> N"
proof (induction cs rule: rev_induct)
  case Nil
  then show ?case using assms by (simp add: window_fresh)
next
  case (snoc c cs)
  let ?L = "snd (run (rate_limit N P) cs)"
  have "max_calls ?L = N"
    by (simp add: run_config rate_limit_def)
  with snoc assms check_window_length [of ?L k "fst c" "snd c"] show ?case
    by (simp add: run_snoc)
qed

lemma check_fst_cong:
  assumes "max_calls L' = max_calls L" and "period L' = period L"
    and "window L' k = window L k"
  shows "fst (check k now L') = fst (check k now L)"
  using assms by (simp add: check_def Let_def split: list.split sum.split)

lemma check_usage_same_key:
  "usage (snd (check k now L)) k = Some (window (snd (check k now L)) k)"
  by (simp add: check_def window_def Let_def split: list.split sum.split)

lemma check_nonpositive_no_admit:
  "max_calls L \<le> 0 \<Longrightarrow> \<not> is_admit (fst (check k now L))"
  by (simp add: check_admit_iff)

lemma check_snd_window:
  "snd (check k now L) = L\<lparr>usage := (usage L)(k \<mapsto> window (snd (check k now L)) k)\<rparr>"
  by (simp add: check_def window_def Let_def split: list.split sum.split)






lemma prune_now: "prune p now [now] = (if 0 < p then [now] else [])"
  by (simp add: prune_def float_sub_self float_lt_int_def)

section \<open>The claims\<close>




text \<open>
  C2. The claim fails on the code: \<^verbatim>\<open>rate_limit\<close> checks nothing and raises
  nothing. With \<open>max_calls = 0\<close> and \<open>period = 0\<close> it returns a limiter like any other,
  and the limiter built with \<open>period = 0\<close> and \<open>max_calls = 5\<close> admits a request.
\<close>

theorem rate_limit_nonpositive_counterexample:
  "max_calls (rate_limit 0 0) = 0 \<and> period (rate_limit 0 0) = 0 \<and>
   usage (rate_limit 0 0) ''k'' = None \<and>
   period (rate_limit 5 0) = 0 \<and> fst (check ''k'' 3 (rate_limit 5 0)) = Inr ()"
  by (simp add: check_eval)

text \<open>
  C2, as the code has it: for every \<open>max_calls\<close> and \<open>period\<close>, non-positive ones
  included, \<^verbatim>\<open>rate_limit\<close> returns a limiter with these two values and an empty
  \<open>usage\<close>. The limiter built with \<open>max_calls \<le> 0\<close> admits no call.
\<close>

theorem rate_limit_no_validation:
  "max_calls (rate_limit m p) = m \<and> period (rate_limit m p) = p \<and>
   usage (rate_limit m p) = Map.empty \<and>
   (m \<le> 0 \<longrightarrow> (\<forall>r\<in>set (fst (run (rate_limit m p) cs)). \<not> is_admit r))"
proof (intro conjI impI ballI)
  fix r
  assume m: "m \<le> 0" and "r \<in> set (fst (run (rate_limit m p) cs))"
  then obtain j where j: "j < length cs" and r: "r = fst (run (rate_limit m p) cs) ! j"
    by (auto simp: in_set_conv_nth run_fst_length)
  have "max_calls (snd (run (rate_limit m p) (take j cs))) \<le> 0"
    using m by (simp add: run_config rate_limit_def)
  then show "\<not> is_admit r"
    unfolding r run_nth [OF j] by (rule check_nonpositive_no_admit)
qed (simp_all add: rate_limit_def)

theorem rate_limit_no_validation_witness:
  "(0::int) \<le> 0 \<and> max_calls (rate_limit 0 (-1)) = 0 \<and> period (rate_limit 0 (-1)) = -1 \<and>
   fst (run (rate_limit 0 (-1)) [(''k'', 7)]) = [Inl IndexError] \<and>
   \<not> is_admit (Inl IndexError :: error + unit)"
proof -
  have h: "(0::int) \<le> 0" by simp
  have r: "fst (run (rate_limit 0 (-1)) [(''k'', 7)]) = [Inl IndexError]"
    by (simp add: check_eval)
  from rate_limit_no_validation [of 0 "-1" "[(''k'', 7)]"] h r show ?thesis
    by simp
qed

text \<open>
  C3. The claim fails on the code for a period that is not a double. With
  \<open>period = 2^53 + 3\<close> the conversion of \<^verbatim>\<open>period\<close> rounds up to \<open>2^53 + 4\<close>, and a
  second request at the reading of the first is rejected with a wait of \<open>2^53 + 4\<close>,
  above the period. With \<open>period = 2^53 + 1\<close> it rounds down to \<open>2^53\<close>, and a request
  at \<open>2^53\<close> after one at \<open>0\<close> is rejected with the wait \<open>0\<close>.
\<close>

theorem reject_wait_rounding_counterexample:
  "fst (run (rate_limit 1 (2 ^ 53 + 3)) [(''k'', 0), (''k'', 0)]) =
     [Inr (), Inl (HTTPException 429 (RetryAfter (2 ^ 53 + 4)))] \<and>
   \<not> (2 ^ 53 + 4 :: real) \<le> real_of_int (2 ^ 53 + 3) \<and>
   fst (run (rate_limit 1 (2 ^ 53 + 1)) [(''k'', 0), (''k'', 2 ^ 53)]) =
     [Inr (), Inl (HTTPException 429 (RetryAfter 0))] \<and>
   \<not> (0::real) < 0"
  by (simp add: check_eval int_to_float_tie_up [simplified] int_to_float_tie_down [simplified]
      round_double_even [simplified])

text \<open>
  C3, as the code has it. The clock readings never decrease and \<open>period \<le> 2^53\<close>, so
  that \<^verbatim>\<open>period\<close> converts to a float exactly. Then every rejection (status 429) of a
  run on a fresh limiter reports a finite wait \<open>w\<close>, the rounded
  \<^verbatim>\<open>period - (now - timestamps[0])\<close>, with \<open>0 < w \<le> period\<close>.
\<close>

theorem reject_wait_bounds:
  assumes "sorted (map snd cs)" and "run (rate_limit N P) cs = (rs, L)" and "P \<le> 2 ^ 53"
    and "j < length cs" and "is_reject (rs ! j)"
  shows "\<exists>w. reject_wait (rs ! j) = Some w \<and> 0 < w \<and> w \<le> real_of_int P"
proof -
  let ?L = "snd (run (rate_limit N P) (take j cs))"
  let ?k = "fst (cs ! j)"
  let ?now = "snd (cs ! j)"
  have r: "rs ! j = fst (check ?k ?now ?L)"
    using assms(2,4) run_nth [of j cs "rate_limit N P"] by simp
  have per: "period ?L = P"
    by (simp add: run_config rate_limit_def)
  from check_reject_state [of ?k ?now ?L] assms(5) r per
  obtain t0 ts pf where p: "prune P ?now (window ?L ?k) = t0 # ts"
    and pf: "int_to_float P = Inr pf"
    and out: "rs ! j = Inl (HTTPException 429 (retry_after (float_rsub pf (float_sub ?now t0))))"
    by auto
  have "t0 \<in> set (prune P ?now (window ?L ?k))"
    by (simp add: p)
  then have young: "float_lt_int (float_sub ?now t0) P" and mem: "t0 \<in> set (window ?L ?k)"
    by (simp_all add: prune_def)
  from mem run_window_subset [of N P "take j cs" ?k]
  obtain c where "c \<in> set (take j cs)" and "t0 = snd c"
    by auto
  then obtain i where "i < j" and "t0 = snd (cs ! i)"
    using assms(4) by (auto simp: in_set_conv_nth)
  then have old: "t0 \<le> ?now"
    using assms(1,4) by (simp add: sorted_iff_nth_mono)
  from young_finite [OF old young] have "0 < P" by auto
  with assms(3) have P: "\<bar>P\<bar> \<le> 2 ^ 53" by simp
  then have "pf = real_of_int P" using pf by (simp add: int_to_float_exact)
  with wait_bounds [OF P old young] obtain w
    where "float_rsub pf (float_sub ?now t0) = Finite w" and "0 < w" and "w \<le> real_of_int P"
    by auto
  then show ?thesis by (simp add: out retry_after_def)
qed

theorem reject_wait_bounds_witness:
  "sorted (map snd [(''k'', 0::real), (''k'', 1), (''k'', 2)]) \<and>
   run (rate_limit 2 10) [(''k'', 0), (''k'', 1), (''k'', 2)] =
     ([Inr (), Inr (), Inl (HTTPException 429 (RetryAfter 8))],
      \<lparr>max_calls = 2, period = 10, usage = [''k'' \<mapsto> [0, 1]]\<rparr>) \<and>
   (10::int) \<le> 2 ^ 53 \<and>
   (2::nat) < length [(''k'', 0::real), (''k'', 1), (''k'', 2)] \<and>
   is_reject ([Inr (), Inr (), Inl (HTTPException 429 (RetryAfter 8))] ! 2 :: error + unit) \<and>
   reject_wait ([Inr (), Inr (), Inl (HTTPException 429 (RetryAfter 8))] ! 2 :: error + unit) = Some 8 \<and>
   (0::real) < 8 \<and> (8::real) \<le> real_of_int 10"
proof -
  let ?cs = "[(''k'', 0::real), (''k'', 1), (''k'', 2)]"
  let ?rs = "[Inr (), Inr (), Inl (HTTPException 429 (RetryAfter 8))] :: (error + unit) list"
  let ?L = "\<lparr>max_calls = 2, period = 10, usage = [''k'' \<mapsto> [0, 1::real]]\<rparr>"
  have s: "sorted (map snd ?cs)" by simp
  have r: "run (rate_limit 2 10) ?cs = (?rs, ?L)"
    by (simp add: check_eval)
  have p: "(10::int) \<le> 2 ^ 53" by simp
  have j: "(2::nat) < length ?cs" by simp
  have w: "is_reject (?rs ! 2)" by simp
  from reject_wait_bounds [OF s r p j w] s r p j w show ?thesis
    by simp
qed

text \<open>
  C4. A call that is rejected leaves the limiter as it was, except that the window of
  the checked key is the pruned one: exactly the timestamps \<open>t\<close> of the old window
  that pass the test \<^verbatim>\<open>now - t < period\<close> of line 34, in their order, and no
  timestamp for the rejected call.
\<close>

theorem reject_leaves_pruned_window:
  assumes "is_reject (fst (check k now L))"
  shows "snd (check k now L) =
           L\<lparr>usage := (usage L)(k \<mapsto>
                filter (\<lambda>t. float_lt_int (float_sub now t) (period L)) (window L k))\<rparr> \<and>
         window (snd (check k now L)) k =
           filter (\<lambda>t. float_lt_int (float_sub now t) (period L)) (window L k)"
proof -
  from check_reject_state [OF assms] obtain t0 ts
    where p: "prune (period L) now (window L k) = t0 # ts"
      and s: "snd (check k now L) = L\<lparr>usage := (usage L)(k \<mapsto> t0 # ts)\<rparr>"
    by blast
  have "window (snd (check k now L)) k = t0 # ts"
    by (simp add: s window_def)
  then show ?thesis using s p by (simp add: prune_def)
qed

theorem reject_leaves_pruned_window_witness:
  "is_reject (fst (check ''k'' 20 \<lparr>max_calls = 1, period = 10, usage = [''k'' \<mapsto> [0, 15]]\<rparr>)) \<and>
   fst (check ''k'' 20 \<lparr>max_calls = 1, period = 10, usage = [''k'' \<mapsto> [0, 15]]\<rparr>) =
     Inl (HTTPException 429 (RetryAfter 5)) \<and>
   snd (check ''k'' 20 \<lparr>max_calls = 1, period = 10, usage = [''k'' \<mapsto> [0, 15]]\<rparr>) =
     \<lparr>max_calls = 1, period = 10, usage = [''k'' \<mapsto> [15]]\<rparr> \<and>
   window (snd (check ''k'' 20 \<lparr>max_calls = 1, period = 10, usage = [''k'' \<mapsto> [0, 15]]\<rparr>)) ''k''
     = [15]"
proof -
  let ?L = "\<lparr>max_calls = 1, period = 10, usage = [''k'' \<mapsto> [0, 15::real]]\<rparr>"
  have v: "fst (check ''k'' 20 ?L) = Inl (HTTPException 429 (RetryAfter 5))"
    by (simp add: check_eval)
  then have h: "is_reject (fst (check ''k'' 20 ?L))"
    by simp
  from reject_leaves_pruned_window [OF h] h v show ?thesis
    by (simp add: window_def float_eval)
qed

text \<open>
  C5. On a limiter with \<open>max_calls = N \<ge> 0\<close>, after any sequence of calls (so right
  after each call completes) the window of every key, the checked one included, holds
  at most \<open>N\<close> timestamps; and the pruned window on which the next call, at any time
  \<open>now\<close>, takes its decision holds at most \<open>N\<close> too.
\<close>

theorem window_size_bound:
  assumes "0 \<le> N" and "run (rate_limit N P) cs = (rs, L)"
  shows "int (length (window L k)) \<le> N \<and> int (length (prune P now (window L k))) \<le> N"
proof -
  have "L = snd (run (rate_limit N P) cs)"
    using assms(2) by simp
  then have "int (length (window L k)) \<le> N"
    using run_window_length [OF assms(1)] by simp
  moreover have "length (prune P now (window L k)) \<le> length (window L k)"
    by (rule prune_length_le)
  ultimately show ?thesis by simp
qed

theorem window_size_bound_witness:
  "(0::int) \<le> 2 \<and>
   run (rate_limit 2 10) [(''k'', 0), (''k'', 1), (''k'', 2)] =
     ([Inr (), Inr (), Inl (HTTPException 429 (RetryAfter 8))],
      \<lparr>max_calls = 2, period = 10, usage = [''k'' \<mapsto> [0, 1]]\<rparr>) \<and>
   int (length (window \<lparr>max_calls = 2, period = 10, usage = [''k'' \<mapsto> [0, 1]]\<rparr> ''k'')) \<le> 2 \<and>
   int (length (prune 10 3 (window \<lparr>max_calls = 2, period = 10, usage = [''k'' \<mapsto> [0, 1]]\<rparr> ''k'')))
     \<le> 2"
proof -
  let ?cs = "[(''k'', 0::real), (''k'', 1), (''k'', 2)]"
  let ?rs = "[Inr (), Inr (), Inl (HTTPException 429 (RetryAfter 8))] :: (error + unit) list"
  let ?L = "\<lparr>max_calls = 2, period = 10, usage = [''k'' \<mapsto> [0, 1::real]]\<rparr>"
  have n: "(0::int) \<le> 2" by simp
  have r: "run (rate_limit 2 10) ?cs = (?rs, ?L)"
    by (simp add: check_eval)
  from window_size_bound [OF n r, of "''k''" 3] n r show ?thesis
    by simp
qed

text \<open>
  C6. \<^verbatim>\<open>rate_limit(max_calls=0, period=60)\<close> is accepted, and the first request of a
  client then fails \<open>0 < 0\<close> with an empty window: \<^verbatim>\<open>timestamps[0]\<close> raises
  \<open>IndexError\<close>, which is neither an admission nor a rejection.
\<close>

theorem check_index_error:
  "fst (check ''k'' 0 (rate_limit 0 60)) = Inl IndexError \<and>
   fst (wrapper (\<lambda>s. s) (\<lambda>_. ''Hello'') 0
          \<lparr>client = Some \<lparr>host = ''127.0.0.1'', port = 8000\<rparr>\<rparr> (rate_limit 0 60)) =
     Inl IndexError"
  by (simp add: wrapper_def check_eval)

text \<open>
  C7. Distinct keys are independent: a call on \<open>k1\<close> leaves the entry of \<open>k2\<close> in
  \<open>usage\<close> (its window) as it was, and a later call on \<open>k2\<close> has the same outcome and
  leaves the same window for \<open>k2\<close> as it would have without the call on \<open>k1\<close>.
\<close>

theorem distinct_keys_independent:
  assumes "k1 \<noteq> k2"
  shows "usage (snd (check k1 now1 L)) k2 = usage L k2 \<and>
         window (snd (check k1 now1 L)) k2 = window L k2 \<and>
         fst (check k2 now2 (snd (check k1 now1 L))) = fst (check k2 now2 L) \<and>
         usage (snd (check k2 now2 (snd (check k1 now1 L)))) k2 = usage (snd (check k2 now2 L)) k2"
proof -
  let ?L1 = "snd (check k1 now1 L)"
  have u: "usage ?L1 k2 = usage L k2"
    using assms by (simp add: check_usage_other_key)
  then have w: "window ?L1 k2 = window L k2"
    by (simp add: window_def)
  have c: "max_calls ?L1 = max_calls L" "period ?L1 = period L"
    by (simp_all add: check_config)
  have d: "fst (check k2 now2 ?L1) = fst (check k2 now2 L)"
    using c w by (rule check_fst_cong)
  have "window (snd (check k2 now2 ?L1)) k2 = window (snd (check k2 now2 L)) k2"
    by (simp add: check_window_same_key d w c)
  then have "usage (snd (check k2 now2 ?L1)) k2 = usage (snd (check k2 now2 L)) k2"
    by (simp add: check_usage_same_key)
  with d u w show ?thesis by simp
qed

theorem distinct_keys_independent_witness:
  "''a'' \<noteq> ''b'' \<and>
   usage (snd (check ''a'' 0 (rate_limit 1 10))) ''b'' = usage (rate_limit 1 10) ''b'' \<and>
   fst (check ''b'' 0 (snd (check ''a'' 0 (rate_limit 1 10)))) = Inr () \<and>
   fst (check ''b'' 0 (rate_limit 1 10)) = Inr ()"
proof -
  have h: "''a'' \<noteq> ''b''" by simp
  have "fst (check ''b'' 0 (rate_limit 1 10)) = Inr ()"
    by (simp add: check_eval)
  with distinct_keys_independent [OF h, of 0 "rate_limit 1 10" 0] h show ?thesis
    by simp
qed

text \<open>
  C8. The claim fails on the code when the first call takes the last slot: on a fresh
  limiter with \<open>max_calls = 1\<close> and \<open>period = 10\<close> the window of the key is empty, so
  already pruned, and of two calls at the same reading the first is admitted and the
  second rejected.
\<close>

theorem check_twice_counterexample:
  "window (rate_limit 1 10) ''k'' = [] \<and>
   fst (check ''k'' 4 (rate_limit 1 10)) = Inr () \<and>
   fst (check ''k'' 4 (snd (check ''k'' 4 (rate_limit 1 10)))) =
     Inl (HTTPException 429 (RetryAfter 10))"
  by (simp add: check_eval)

text \<open>
  C8, as the code has it. Two successive calls on one key with the same clock reading.
  A call that is not admitted, made again, has the same outcome (the same wait) and
  leaves the limiter as it is. After an admitted call the second one is admitted exactly
  when the period is not positive or one more slot is left, that is when the window
  pruned by the first call, with its timestamp added, still has fewer than
  \<open>max_calls\<close> entries: the two decisions differ exactly when the first call takes
  the last slot.
\<close>

theorem check_twice_same_now:
  assumes "check k now L = (r1, L1)" and "check k now L1 = (r2, L2)"
  shows "(\<not> is_admit r1 \<longrightarrow> r2 = r1 \<and> L2 = L1) \<and>
         (is_admit r1 \<longrightarrow>
            (is_admit r2 \<longleftrightarrow>
               period L \<le> 0 \<or>
               int (length (filter (\<lambda>t. float_lt_int (float_sub now t) (period L))
                      (window L k))) + 1 < max_calls L))"
proof -
  let ?W = "prune (period L) now (window L k)"
  have r1: "r1 = fst (check k now L)" and L1: "L1 = snd (check k now L)"
    using assms(1) by simp_all
  have r2: "r2 = fst (check k now L1)" and L2: "L2 = snd (check k now L1)"
    using assms(2) by simp_all
  have cfg: "max_calls L1 = max_calls L" "period L1 = period L"
    by (simp_all add: L1 check_config)
  have w1: "window L1 k = (if is_admit r1 then ?W @ [now] else ?W)"
    by (simp add: L1 r1 check_window_same_key)
  have same: "r2 = r1 \<and> L2 = L1" if "\<not> is_admit r1"
  proof -
    from that have w: "window L1 k = ?W"
      by (simp add: w1)
    then have pruned: "prune (period L) now (window L1 k) = ?W"
      by (simp add: prune_idem)
    have f: "fst (check k now L1) = fst (check k now L)"
      using cfg pruned by (rule check_fst_pruned_cong)
    with that have "\<not> is_admit (fst (check k now L1))"
      by (simp add: r1)
    then have weq: "window (snd (check k now L1)) k = window L1 k"
      by (simp add: check_window_same_key [of k now L1] cfg w prune_idem)
    have u1: "usage L1 k = Some (window L1 k)"
      unfolding L1 by (rule check_usage_same_key)
    have "snd (check k now L1) = L1\<lparr>usage := (usage L1)(k \<mapsto> window L1 k)\<rparr>"
      by (rule check_snd_window [of k now L1, unfolded weq])
    also have "\<dots> = L1"
      using u1 by (simp add: fun_upd_idem)
    finally have "snd (check k now L1) = L1" .
    with f show ?thesis by (simp add: r1 r2 L2)
  qed
  have again: "is_admit r2 \<longleftrightarrow> period L \<le> 0 \<or> int (length ?W) + 1 < max_calls L"
    if a: "is_admit r1"
  proof -
    from a have w: "window L1 k = ?W @ [now]"
      by (simp add: w1)
    have p: "prune (period L) now (window L1 k) = ?W @ (if 0 < period L then [now] else [])"
      by (simp add: w prune_append prune_idem prune_now)
    from a have slot: "int (length ?W) < max_calls L"
      by (simp add: r1 check_admit_iff)
    have "is_admit r2 \<longleftrightarrow> int (length (prune (period L) now (window L1 k))) < max_calls L"
      by (simp add: r2 check_admit_iff cfg)
    with slot show ?thesis
      by (auto simp: p)
  qed
  from same again show ?thesis
    by (simp add: prune_def)
qed

theorem check_twice_same_now_witness:
  "check ''k'' 4 (rate_limit 1 10) = (Inr (), \<lparr>max_calls = 1, period = 10, usage = [''k'' \<mapsto> [4]]\<rparr>) \<and>
   check ''k'' 4 \<lparr>max_calls = 1, period = 10, usage = [''k'' \<mapsto> [4]]\<rparr> =
     (Inl (HTTPException 429 (RetryAfter 10)),
      \<lparr>max_calls = 1, period = 10, usage = [''k'' \<mapsto> [4]]\<rparr>) \<and>
   is_admit (Inr () :: error + unit) \<and>
   \<not> is_admit (Inl (HTTPException 429 (RetryAfter 10)) :: error + unit) \<and>
   \<not> (period (rate_limit 1 10) \<le> 0 \<or>
      int (length (filter (\<lambda>t. float_lt_int (float_sub 4 t) (period (rate_limit 1 10)))
             (window (rate_limit 1 10) ''k''))) + 1 < max_calls (rate_limit 1 10))"
proof -
  let ?L1 = "\<lparr>max_calls = 1, period = 10, usage = [''k'' \<mapsto> [4::real]]\<rparr>"
  have a: "check ''k'' 4 (rate_limit 1 10) = (Inr (), ?L1)"
    by (simp add: check_eval)
  have b: "check ''k'' 4 ?L1 = (Inl (HTTPException 429 (RetryAfter 10)), ?L1)"
    by (simp add: check_eval)
  from check_twice_same_now [OF a b] a b show ?thesis
    by (simp add: window_def rate_limit_def)
qed

text \<open>
  C9. With \<open>max_calls = 2\<close> and \<open>period = 10\<close> on a fresh limiter, the calls on one
  key at the times 0, 1, 2 and 11 are admitted, admitted, rejected with the wait
  \<open>10 - (2 - 0) = 8\<close>, and admitted; at time 11 both earlier timestamps are pruned
  (\<open>11 - 0 \<ge> 10\<close> and \<open>11 - 1 \<ge> 10\<close>), so the window ends as \<open>[11]\<close>.
\<close>

theorem run_scenario:
  "run (rate_limit 2 10) [(k, 0), (k, 1), (k, 2), (k, 11)] =
     ([Inr (), Inr (), Inl (HTTPException 429 (RetryAfter 8)), Inr ()],
      \<lparr>max_calls = 2, period = 10, usage = [k \<mapsto> [11]]\<rparr>)"
  by (simp add: check_eval)

text \<open>
  C10. A request without client information makes the wrapper raise the error 400 with
  the limiter untouched: no key is created, no window pruned, no timestamp appended.
\<close>

theorem wrapper_no_client:
  assumes "client request = None"
  shows "wrapper sha256_hexdigest func now request L =
           (Inl (HTTPException 400 (Message ''Request has no client information'')), L)"
  using assms by (simp add: wrapper_def)

theorem wrapper_no_client_witness:
  "client \<lparr>client = None\<rparr> = None \<and>
   wrapper (\<lambda>s. s) (\<lambda>_. ''Hello'') 5 \<lparr>client = None\<rparr>
       \<lparr>max_calls = 2, period = 10, usage = [''k'' \<mapsto> [0, 1]]\<rparr> =
     (Inl (HTTPException 400 (Message ''Request has no client information'')),
      \<lparr>max_calls = 2, period = 10, usage = [''k'' \<mapsto> [0, 1]]\<rparr>)"
proof -
  have h: "client \<lparr>client = None\<rparr> = None" by simp
  from wrapper_no_client [OF h] h show ?thesis
    by simp
qed

end
